theory Spec2Isabelle
  imports Main
begin

section \<open>Text primitives of the statute parser\<close>

text \<open>
  The parser of \<^verbatim>\<open>src/CrsSearch/indexer.py\<close> works on Python strings. A string is
  modelled as a \<^typ>\<open>string\<close> whose characters are the code points below 256, so
  \<^const>\<open>length\<close> counts what Python's \<^verbatim>\<open>len\<close> counts. On these code points
  Python's \<^verbatim>\<open>str.isspace\<close> (used by \<^verbatim>\<open>strip()\<close> and by the pattern class
  \<^verbatim>\<open>\s\<close>) holds of 9 to 13, 28 to 32, 133 and 160, and the class \<^verbatim>\<open>\d\<close>
  holds of the ten ASCII digits.
\<close>

definition isspace :: "char \<Rightarrow> bool" where
  "isspace c =
     (let n = (of_char c :: nat)
      in (9 \<le> n \<and> n \<le> 13) \<or> (28 \<le> n \<and> n \<le> 32) \<or> n = 133 \<or> n = 160)"

definition isdigit :: "char \<Rightarrow> bool" where
  "isdigit c = (let n = (of_char c :: nat) in 48 \<le> n \<and> n \<le> 57)"

text \<open>
  \<^verbatim>\<open>str.upper()\<close> maps every character on its own. The result is a list of code
  points, because the upper case of code point 181 is 924, that of 255 is 376, and that
  of 223 is the two letters \<^verbatim>\<open>SS\<close>.
\<close>

definition upper_cp :: "char \<Rightarrow> nat list" where
  "upper_cp c =
     (let n = (of_char c :: nat)
      in if 97 \<le> n \<and> n \<le> 122 then [n - 32]
         else if n = 181 then [924]
         else if n = 223 then [83, 83]
         else if 224 \<le> n \<and> n \<le> 254 \<and> n \<noteq> 247 then [n - 32]
         else if n = 255 then [376]
         else [n])"

definition upper :: "string \<Rightarrow> nat list" where
  "upper text = concat (map upper_cp text)"

text \<open>\<^verbatim>\<open>s.startswith(p)\<close>, on any list.\<close>

definition startswith :: "'a list \<Rightarrow> 'a list \<Rightarrow> bool" where
  "startswith s p = (take (length p) s = p)"

text \<open>\<^verbatim>\<open>s.strip()\<close>: leading and trailing whitespace removed.\<close>

definition strip :: "string \<Rightarrow> string" where
  "strip s = rev (dropWhile isspace (rev (dropWhile isspace s)))"

text \<open>\<^verbatim>\<open>"\n".join(xs)\<close>.\<close>

fun join_nl :: "string list \<Rightarrow> string" where
  "join_nl [] = []"
| "join_nl [x] = x"
| "join_nl (x # y # ys) = x @ CHR 0x0A # join_nl (y # ys)"

section \<open>The section pattern\<close>

text \<open>
  \<^verbatim>\<open>section_pattern = re.compile(r"^\s*(\d+-\d+-\d+(?:\.\d+)?)\.?")\<close>, applied with
  \<^verbatim>\<open>match\<close>. The matcher below follows the pattern from left to right. Every
  repetition is greedy and is followed by a character outside its class, and the final
  \<^verbatim>\<open>\.?\<close> matches the empty string, so the greedy choice is the match the
  backtracking engine reports. The result is \<^verbatim>\<open>match.group(1)\<close>, or \<^const>\<open>None\<close>
  when the pattern does not match.
\<close>

definition digits1 :: "string \<Rightarrow> (string \<times> string) option" where
  "digits1 s =
     (let ds = takeWhile isdigit s
      in if ds = [] then None else Some (ds, dropWhile isdigit s))"

definition lit :: "char \<Rightarrow> string \<Rightarrow> string option" where
  "lit c s = (case s of [] \<Rightarrow> None | x # r \<Rightarrow> if x = c then Some r else None)"

definition section_match :: "string \<Rightarrow> string option" where
  "section_match text =
     (case digits1 (dropWhile isspace text) of
        None \<Rightarrow> None
      | Some (d1, r1) \<Rightarrow>
     (case lit CHR ''-'' r1 of
        None \<Rightarrow> None
      | Some r2 \<Rightarrow>
     (case digits1 r2 of
        None \<Rightarrow> None
      | Some (d2, r3) \<Rightarrow>
     (case lit CHR ''-'' r3 of
        None \<Rightarrow> None
      | Some r4 \<Rightarrow>
     (case digits1 r4 of
        None \<Rightarrow> None
      | Some (d3, r5) \<Rightarrow>
          (let core = d1 @ ''-'' @ d2 @ ''-'' @ d3
           in case lit CHR ''.'' r5 of
                None \<Rightarrow> Some core
              | Some r6 \<Rightarrow>
                  (case digits1 r6 of
                     None \<Rightarrow> Some core
                   | Some (d4, r7) \<Rightarrow> Some (core @ ''.'' @ d4))))))))"

section \<open>The segmentation loop of \<^verbatim>\<open>parse_crs_html\<close>\<close>

text \<open>
  A result row is the tuple
  \<^verbatim>\<open>(main_title, current_article, current_section_id, full_content)\<close>.
\<close>

type_synonym section_row = "string \<times> string \<times> string \<times> string"

definition row_article :: "section_row \<Rightarrow> string" where
  "row_article r = fst (snd r)"

definition row_id :: "section_row \<Rightarrow> string" where
  "row_id r = fst (snd (snd r))"

definition row_content :: "section_row \<Rightarrow> string" where
  "row_content r = snd (snd (snd r))"

text \<open>The variables the loop updates.\<close>

record pstate =
  sections_data :: "section_row list"
  current_article :: string
  current_section_id :: "string option"
  current_buffer :: "string list"

definition init_state :: pstate where
  "init_state =
     \<lparr>sections_data = [], current_article = ''General Provisions'',
      current_section_id = None, current_buffer = []\<rparr>"

text \<open>
  \<^verbatim>\<open>text.upper().startswith("ARTICLE") and len(text) < 50\<close>; the letters of
  \<^verbatim>\<open>ARTICLE\<close> as code points.
\<close>

definition is_article_header :: "string \<Rightarrow> bool" where
  "is_article_header text =
     (startswith (upper text) [65, 82, 84, 73, 67, 76, 69] \<and> length text < 50)"

definition is_metadata :: "string \<Rightarrow> bool" where
  "is_metadata text =
     (startswith text ''Source:'' \<or> startswith text ''Cross references:''
      \<or> startswith text ''Law reviews:'')"

text \<open>Truth value of \<^verbatim>\<open>current_section_id\<close>: neither \<^verbatim>\<open>None\<close> nor empty.\<close>

definition section_open :: "pstate \<Rightarrow> bool" where
  "section_open s =
     (case current_section_id s of None \<Rightarrow> False | Some i \<Rightarrow> i \<noteq> [])"

definition full_content :: "pstate \<Rightarrow> string" where
  "full_content s = strip (join_nl (current_buffer s))"

definition the_row :: "string \<Rightarrow> pstate \<Rightarrow> section_row" where
  "the_row main_title s =
     (main_title, current_article s,
      (case current_section_id s of None \<Rightarrow> [] | Some i \<Rightarrow> i), full_content s)"

text \<open>One pass of the loop body (lines 40 to 67) on the paragraph text.\<close>

definition step :: "string \<Rightarrow> pstate \<Rightarrow> string \<Rightarrow> pstate" where
  "step main_title s text =
     (if is_article_header text then s\<lparr>current_article := text\<rparr>
      else case section_match text of
        Some i \<Rightarrow>
          (if section_open s \<and> full_content s \<noteq> []
           then s\<lparr>sections_data := sections_data s @ [the_row main_title s]\<rparr>
           else s)
          \<lparr>current_section_id := Some i, current_buffer := [text]\<rparr>
      | None \<Rightarrow>
          if section_open s
          then (if is_metadata text then s
                else s\<lparr>current_buffer := current_buffer s @ [text]\<rparr>)
          else s)"

text \<open>The flush after the loop (lines 70 to 74).\<close>

definition finish :: "string \<Rightarrow> pstate \<Rightarrow> section_row list" where
  "finish main_title s =
     (if section_open s \<and> current_buffer s \<noteq> []
      then sections_data s @ [the_row main_title s]
      else sections_data s)"

text \<open>The segmenter: the loop over the paragraph texts, then the flush.\<close>

definition segment :: "string \<Rightarrow> string list \<Rightarrow> section_row list" where
  "segment main_title blocks =
     finish main_title (foldl (step main_title) init_state blocks)"

text \<open>
  Line 40 computes each text with \<^verbatim>\<open>p.get_text(" ", strip=True)\<close>. A paragraph is
  given by the strings of its text nodes in document order; the library call strips each
  one, leaves out those that become empty, and joins the rest with one space.
\<close>

fun join_sp :: "string list \<Rightarrow> string" where
  "join_sp [] = []"
| "join_sp [x] = x"
| "join_sp (x # y # ys) = x @ CHR '' '' # join_sp (y # ys)"

definition get_text :: "string list \<Rightarrow> string" where
  "get_text nodes = join_sp (filter (\<lambda>x. x \<noteq> []) (map strip nodes))"

definition parse_crs_html :: "string \<Rightarrow> string list list \<Rightarrow> section_row list" where
  "parse_crs_html main_title paragraphs = segment main_title (map get_text paragraphs)"

section \<open>The query-time embedding function\<close>

text \<open>
  \<^verbatim>\<open>embed_text\<close> of \<^verbatim>\<open>src/CrsSearch/plugins/semantic_search.py\<close>. The argument is
  \<^const>\<open>None\<close> for an absent value. The embedding model is a parameter: \<open>encode\<close>
  stands for \<^verbatim>\<open>model.encode(text).tolist()\<close>, a list of floats of an unspecified type
  \<open>'f\<close>, and \<open>float_repr\<close> for the text \<^verbatim>\<open>json.dumps\<close> writes for one float. The
  encoder \<^verbatim>\<open>json.dumps\<close> writes a list between brackets, the items separated by a comma
  and a space.
\<close>

fun join_comma :: "string list \<Rightarrow> string" where
  "join_comma [] = []"
| "join_comma [x] = x"
| "join_comma (x # y # ys) = x @ '', '' @ join_comma (y # ys)"

definition json_dumps :: "('f \<Rightarrow> string) \<Rightarrow> 'f list \<Rightarrow> string" where
  "json_dumps float_repr xs = ''['' @ join_comma (map float_repr xs) @ '']''"

definition embed_text ::
  "(string \<Rightarrow> 'f list) \<Rightarrow> ('f \<Rightarrow> string) \<Rightarrow> string option \<Rightarrow> string option" where
  "embed_text encode float_repr text =
     (if text = None \<or> text = Some [] then None
      else case text of
             Some s \<Rightarrow> Some (json_dumps float_repr (encode s))
           | None \<Rightarrow> None)"


section \<open>Notions used to state the properties\<close>

text \<open>
  The loop keeps this condition: while a section is open, its identifier is not empty and
  the buffer starts with a text that has a character other than whitespace.
\<close>

definition ok :: "pstate \<Rightarrow> bool" where
  "ok s =
     (case current_section_id s of
        None \<Rightarrow> True
      | Some i \<Rightarrow> i \<noteq> [] \<and> current_buffer s \<noteq> [] \<and> \<not> list_all isspace (hd (current_buffer s)))"

text \<open>The continuation blocks that reach the buffer of an open section.\<close>

definition body_of :: "string list \<Rightarrow> string list" where
  "body_of mid = filter (\<lambda>b. \<not> is_article_header b \<and> \<not> is_metadata b) mid"

text \<open>
  The value of \<^verbatim>\<open>current_article\<close> after the blocks \<open>bs\<close>, starting from \<open>a\<close>: the
  last article header among them, or \<open>a\<close> when there is none.
\<close>

definition label_after :: "string \<Rightarrow> string list \<Rightarrow> string" where
  "label_after a bs = last (a # filter is_article_header bs)"

text \<open>The blocks that match the section pattern, in input order.\<close>

definition headers :: "string list \<Rightarrow> string list" where
  "headers blocks = filter (\<lambda>b. section_match b \<noteq> None) blocks"

text \<open>
  The identifiers of the sections in the order the loop opens them: the tests are those
  of the loop body, in its order.
\<close>

fun opened_ids :: "string list \<Rightarrow> string list" where
  "opened_ids [] = []"
| "opened_ids (b # bs) =
     (if is_article_header b then opened_ids bs
      else case section_match b of
             Some i \<Rightarrow> i # opened_ids bs
           | None \<Rightarrow> opened_ids bs)"

text \<open>
  What a row owes to the header block that opened its section: a content that is not
  empty and starts with the header text, surrounding whitespace removed.
\<close>

definition good_row :: "section_row \<Rightarrow> string \<Rightarrow> bool" where
  "good_row r h = (row_content r \<noteq> [] \<and> startswith (row_content r) (strip h))"


text \<open>
  The index of the first block whose match yields the identifier \<open>i\<close> (the number of
  blocks when no block does).
\<close>

definition first_pos :: "string list \<Rightarrow> string \<Rightarrow> nat" where
  "first_pos blocks i = length (takeWhile (\<lambda>b. section_match b \<noteq> Some i) blocks)"

section \<open>Facts about the text primitives and the pattern\<close>

lemma isdigit_not_space: "isdigit c \<Longrightarrow> \<not> isspace c"
  by (auto simp: isdigit_def isspace_def Let_def)

lemma upper_cp_nonempty: "upper_cp c \<noteq> []"
  by (simp add: upper_cp_def Let_def)

lemma upper_cp_A: "hd (upper_cp c) = 65 \<Longrightarrow> of_char c = (65::nat) \<or> of_char c = (97::nat)"
  by (auto simp: upper_cp_def Let_def split: if_splits)

lemma startswith_hd: "startswith (x @ y) (p # ps) \<Longrightarrow> x \<noteq> [] \<Longrightarrow> hd x = p"
  by (cases x) (simp_all add: startswith_def)

lemma article_first:
  assumes "is_article_header b"
  obtains c cs where "b = c # cs" "of_char c = (65::nat) \<or> of_char c = (97::nat)"
proof (cases b)
  case Nil
  with assms show ?thesis by (simp add: is_article_header_def startswith_def upper_def)
next
  case (Cons c cs)
  from assms have "startswith (upper_cp c @ upper cs) [65, 82, 84, 73, 67, 76, 69]"
    by (simp add: is_article_header_def upper_def Cons)
  then have "hd (upper_cp c) = 65"
    using upper_cp_nonempty[of c] by (rule startswith_hd)
  then show ?thesis using that Cons upper_cp_A by blast
qed

lemma article_no_match: "is_article_header b \<Longrightarrow> section_match b = None"
proof -
  assume a: "is_article_header b"
  then obtain c cs where b: "b = c # cs" and c: "of_char c = (65::nat) \<or> of_char c = (97::nat)"
    by (rule article_first)
  from c have "\<not> isspace c" "\<not> isdigit c" by (auto simp: isspace_def isdigit_def Let_def)
  then show ?thesis by (simp add: section_match_def b digits1_def)
qed

lemma digits1_Some:
  "digits1 s = Some (d, r) \<Longrightarrow> d \<noteq> [] \<and> list_all isdigit d \<and> s = d @ r"
  by (auto simp: digits1_def Let_def list_all_iff split: if_splits dest: set_takeWhileD)

lemma lit_Some: "lit c s = Some r \<Longrightarrow> s = c # r"
  by (auto simp: lit_def split: list.splits if_splits)

lemma section_match_shape:
  assumes "section_match b = Some i"
  shows "\<exists>d1 d2 d3 sfx rest.
           dropWhile isspace b = i @ rest \<and>
           i = d1 @ ''-'' @ d2 @ ''-'' @ d3 @ sfx \<and>
           d1 \<noteq> [] \<and> list_all isdigit d1 \<and>
           d2 \<noteq> [] \<and> list_all isdigit d2 \<and>
           d3 \<noteq> [] \<and> list_all isdigit d3 \<and>
           (sfx = [] \<or> (\<exists>d4. sfx = ''.'' @ d4 \<and> d4 \<noteq> [] \<and> list_all isdigit d4))"
proof -
  from assms obtain d1 r1 r2 d2 r3 r4 d3 r5 where
    1: "digits1 (dropWhile isspace b) = Some (d1, r1)" and
    2: "lit CHR ''-'' r1 = Some r2" and
    3: "digits1 r2 = Some (d2, r3)" and
    4: "lit CHR ''-'' r3 = Some r4" and
    5: "digits1 r4 = Some (d3, r5)" and
    6: "(case lit CHR ''.'' r5 of
                None \<Rightarrow> Some (d1 @ ''-'' @ d2 @ ''-'' @ d3)
              | Some r6 \<Rightarrow>
                  (case digits1 r6 of
                     None \<Rightarrow> Some (d1 @ ''-'' @ d2 @ ''-'' @ d3)
                   | Some (d4, r7) \<Rightarrow> Some ((d1 @ ''-'' @ d2 @ ''-'' @ d3) @ ''.'' @ d4))) = Some i"
    by (auto simp: section_match_def Let_def split: option.splits prod.splits)
  note a = digits1_Some[OF 1] lit_Some[OF 2] digits1_Some[OF 3] lit_Some[OF 4] digits1_Some[OF 5]
  have whole: "dropWhile isspace b = d1 @ ''-'' @ d2 @ ''-'' @ d3 @ r5"
    using a by simp
  have fin: "?thesis"
    if "i = d1 @ ''-'' @ d2 @ ''-'' @ d3 @ sfx" "r5 = sfx @ rest"
       "sfx = [] \<or> (\<exists>d4. sfx = ''.'' @ d4 \<and> d4 \<noteq> [] \<and> list_all isdigit d4)"
    for sfx rest
  proof -
    have dw: "dropWhile isspace b = i @ rest" using whole that by simp
    show ?thesis
      apply (rule exI[of _ d1], rule exI[of _ d2], rule exI[of _ d3])
      apply (rule exI[of _ sfx], rule exI[of _ rest])
      using dw that a by simp
  qed
  show ?thesis
  proof (cases "lit CHR ''.'' r5")
    case None
    with 6 have "i = d1 @ ''-'' @ d2 @ ''-'' @ d3 @ []" by simp
    then show ?thesis by (rule fin) simp_all
  next
    case (Some r6)
    note r6 = lit_Some[OF Some]
    show ?thesis
    proof (cases "digits1 r6")
      case None
      with 6 Some have "i = d1 @ ''-'' @ d2 @ ''-'' @ d3 @ []" by simp
      then show ?thesis by (rule fin) simp_all
    next
      case (Some p)
      obtain d4 r7 where p: "p = (d4, r7)" by (cases p)
      note d = digits1_Some[OF Some[unfolded p]]
      from 6 \<open>lit CHR ''.'' r5 = Some r6\<close> Some p
      have i: "i = d1 @ ''-'' @ d2 @ ''-'' @ d3 @ (''.'' @ d4)" by simp
      show ?thesis using i
      proof (rule fin)
        show "r5 = (''.'' @ d4) @ r7" using r6 d by simp
        show "''.'' @ d4 = [] \<or> (\<exists>d4'. ''.'' @ d4 = ''.'' @ d4' \<and> d4' \<noteq> [] \<and> list_all isdigit d4')"
          using d by simp
      qed
    qed
  qed
qed

lemma section_match_prefix:
  "section_match b = Some i \<Longrightarrow> \<exists>rest. dropWhile isspace b = i @ rest"
  using section_match_shape by blast

lemma section_match_hd:
  assumes "section_match b = Some i"
  shows "i \<noteq> [] \<and> isdigit (hd i)"
proof -
  from section_match_shape[OF assms] obtain d1 x where "i = d1 @ x" "d1 \<noteq> []" "list_all isdigit d1"
    by blast
  then show ?thesis by (cases d1) auto
qed

lemma section_match_nonspace:
  assumes "section_match b = Some i"
  shows "\<forall>c\<in>set i. \<not> isspace c"
proof -
  have dash: "\<not> isspace CHR ''-''" "\<not> isspace CHR ''.''" by (simp_all add: isspace_def)
  from section_match_shape[OF assms] show ?thesis
    by (auto simp: list_all_iff dash) (blast dest: isdigit_not_space)+
qed

lemma section_match_block_nonspace:
  assumes "section_match b = Some i"
  shows "\<not> list_all isspace b"
proof
  assume "list_all isspace b"
  then have "dropWhile isspace b = []" by (simp add: list_all_iff)
  with section_match_prefix[OF assms] section_match_hd[OF assms] show False by simp
qed

section \<open>Facts about the loop\<close>

lemma dropWhile_keeps: "x \<in> set xs \<Longrightarrow> \<not> P x \<Longrightarrow> x \<in> set (dropWhile P xs)"
  by (induction xs) auto

lemma strip_nonempty: "\<not> list_all isspace s \<Longrightarrow> strip s \<noteq> []"
proof -
  assume "\<not> list_all isspace s"
  then obtain x where x: "x \<in> set s" "\<not> isspace x" by (auto simp: list_all_iff)
  then have "x \<in> set (rev (dropWhile isspace s))" by (simp add: dropWhile_keeps)
  then have "x \<in> set (dropWhile isspace (rev (dropWhile isspace s)))"
    using x(2) by (rule dropWhile_keeps)
  then have "dropWhile isspace (rev (dropWhile isspace s)) \<noteq> []"
    by (metis empty_iff empty_set)
  then show ?thesis by (simp add: strip_def)
qed

lemma row_simps:
  "row_article (t, a, i, c) = a" "row_id (t, a, i, c) = i" "row_content (t, a, i, c) = c"
  by (simp_all add: row_article_def row_id_def row_content_def)

lemma join_nl_Cons: "\<exists>r. join_nl (h # xs) = h @ r"
  by (cases xs) auto

lemma join_nl_nonspace: "\<not> list_all isspace h \<Longrightarrow> \<not> list_all isspace (join_nl (h # xs))"
  using join_nl_Cons[of h xs] by auto

lemma ok_init: "ok init_state"
  by (simp add: ok_def init_state_def)

lemma ok_open: "ok s \<Longrightarrow> section_open s = (current_section_id s \<noteq> None)"
  by (auto simp: ok_def section_open_def split: option.splits)

lemma ok_content: "ok s \<Longrightarrow> section_open s \<Longrightarrow> full_content s \<noteq> []"
proof -
  assume "ok s" "section_open s"
  then have "current_buffer s \<noteq> []" "\<not> list_all isspace (hd (current_buffer s))"
    by (auto simp: ok_def section_open_def split: option.splits)
  then show ?thesis
    by (cases "current_buffer s") (auto simp: full_content_def intro!: strip_nonempty join_nl_nonspace)
qed

lemma step_article: "is_article_header b \<Longrightarrow> step t s b = s\<lparr>current_article := b\<rparr>"
  by (simp add: step_def)

lemma step_header:
  "ok s \<Longrightarrow> section_match b = Some i \<Longrightarrow>
   step t s b =
     (if section_open s then s\<lparr>sections_data := sections_data s @ [the_row t s]\<rparr> else s)
       \<lparr>current_section_id := Some i, current_buffer := [b]\<rparr>"
  using article_no_match[of b] by (auto simp: step_def ok_content)

lemma step_plain:
  "\<not> is_article_header b \<Longrightarrow> section_match b = None \<Longrightarrow>
   step t s b =
     (if section_open s \<and> \<not> is_metadata b then s\<lparr>current_buffer := current_buffer s @ [b]\<rparr> else s)"
  by (simp add: step_def)

lemma ok_step: "ok s \<Longrightarrow> ok (step t s b)"
proof (cases "is_article_header b")
  case True
  assume "ok s" then show ?thesis by (simp add: step_article True ok_def split: option.splits)
next
  case False
  assume s: "ok s"
  show ?thesis
  proof (cases "section_match b")
    case None
    then show ?thesis using s False
      by (cases "current_buffer s") (auto simp: step_plain ok_def split: option.splits)
  next
    case (Some i)
    then show ?thesis using s section_match_hd[OF Some] section_match_block_nonspace[OF Some]
      by (simp add: step_header ok_def)
  qed
qed

lemma ok_foldl: "ok s \<Longrightarrow> ok (foldl (step t) s bs)"
  by (induction bs arbitrary: s) (simp_all add: ok_step)

lemma step_extends: "\<exists>ys. sections_data (step t s b) = sections_data s @ ys"
  by (auto simp: step_def split: option.splits)

lemma foldl_extends: "\<exists>ys. sections_data (foldl (step t) s bs) = sections_data s @ ys"
proof (induction bs arbitrary: s)
  case Nil
  show ?case by simp
next
  case (Cons b bs)
  obtain ys where "sections_data (step t s b) = sections_data s @ ys"
    using step_extends by blast
  moreover obtain zs where
    "sections_data (foldl (step t) (step t s b) bs) = sections_data (step t s b) @ zs"
    using Cons.IH by blast
  ultimately show ?case by simp
qed

lemma finish_extends: "\<exists>ys. finish t s = sections_data s @ ys"
  by (simp add: finish_def)

lemma run_extends: "\<exists>ys. finish t (foldl (step t) s bs) = sections_data s @ ys"
  using foldl_extends[of t s bs] finish_extends[of t "foldl (step t) s bs"] by auto

lemma run_ids:
  "ok s \<Longrightarrow>
   map row_id (finish t (foldl (step t) s bs)) =
     map row_id (sections_data s)
     @ (case current_section_id s of None \<Rightarrow> [] | Some i \<Rightarrow> [i])
     @ List.map_filter section_match bs"
proof (induction bs arbitrary: s)
  case Nil
  then show ?case
    by (auto simp: finish_def ok_def section_open_def the_row_def row_simps List.map_filter_simps
             split: option.splits)
next
  case (Cons b bs)
  note s = \<open>ok s\<close>
  have IH: "map row_id (finish t (foldl (step t) (step t s b) bs)) =
     map row_id (sections_data (step t s b))
     @ (case current_section_id (step t s b) of None \<Rightarrow> [] | Some i \<Rightarrow> [i])
     @ List.map_filter section_match bs"
    using Cons.IH[OF ok_step[OF s]] .
  show ?case
  proof (cases "is_article_header b")
    case True
    then show ?thesis using IH article_no_match[OF True]
      by (simp add: step_article List.map_filter_simps)
  next
    case False
    show ?thesis
    proof (cases "section_match b")
      case None
      then show ?thesis using IH False
        by (simp add: step_plain List.map_filter_simps)
    next
      case (Some i)
      then show ?thesis using IH s
        by (auto simp: step_header List.map_filter_simps ok_open the_row_def row_simps
                 split: option.splits)
    qed
  qed
qed

lemma run_nomatch_open:
  "section_open s \<Longrightarrow> \<forall>b\<in>set mid. section_match b = None \<Longrightarrow>
   foldl (step t) s mid =
     s\<lparr>current_article := label_after (current_article s) mid,
       current_buffer := current_buffer s @ body_of mid\<rparr>"
proof (induction mid arbitrary: s)
  case Nil
  then show ?case by (simp add: label_after_def body_of_def)
next
  case (Cons b mid)
  have nm: "section_match b = None" using Cons.prems by simp
  define s' where "s' = step t s b"
  have st: "s' = (if is_article_header b then s\<lparr>current_article := b\<rparr>
                  else if is_metadata b then s
                  else s\<lparr>current_buffer := current_buffer s @ [b]\<rparr>)"
    using nm Cons.prems(1) by (simp add: s'_def step_def)
  have op: "section_open s'"
    using Cons.prems(1) by (simp add: st section_open_def)
  have "foldl (step t) s' mid =
     s'\<lparr>current_article := label_after (current_article s') mid,
       current_buffer := current_buffer s' @ body_of mid\<rparr>"
    using Cons.IH[OF op] Cons.prems(2) by simp
  then have "foldl (step t) s (b # mid) =
     s'\<lparr>current_article := label_after (current_article s') mid,
       current_buffer := current_buffer s' @ body_of mid\<rparr>"
    by (simp add: s'_def)
  also have "\<dots> = s\<lparr>current_article := label_after (current_article s) (b # mid),
       current_buffer := current_buffer s @ body_of (b # mid)\<rparr>"
    by (simp add: st label_after_def body_of_def)
  finally show ?case .
qed

lemma run_nomatch_closed:
  "\<not> section_open s \<Longrightarrow> \<forall>b\<in>set bs. section_match b = None \<Longrightarrow>
   foldl (step t) s bs = s\<lparr>current_article := label_after (current_article s) bs\<rparr>"
proof (induction bs arbitrary: s)
  case Nil
  then show ?case by (simp add: label_after_def)
next
  case (Cons b bs)
  have nm: "section_match b = None" using Cons.prems by simp
  define s' where "s' = step t s b"
  have st: "s' = (if is_article_header b then s\<lparr>current_article := b\<rparr> else s)"
    using nm Cons.prems(1) by (simp add: s'_def step_def)
  have op: "\<not> section_open s'"
    using Cons.prems(1) by (simp add: st section_open_def)
  have "foldl (step t) s' bs = s'\<lparr>current_article := label_after (current_article s') bs\<rparr>"
    using Cons.IH[OF op] Cons.prems(2) by simp
  then have "foldl (step t) s (b # bs) =
     s'\<lparr>current_article := label_after (current_article s') bs\<rparr>"
    by (simp add: s'_def)
  also have "\<dots> = s\<lparr>current_article := label_after (current_article s) (b # bs)\<rparr>"
    by (simp add: st label_after_def)
  finally show ?case .
qed

lemma run_label:
  "current_article (foldl (step t) s bs) = label_after (current_article s) bs"
proof (induction bs arbitrary: s)
  case Nil
  show ?case by (simp add: label_after_def)
next
  case (Cons b bs)
  have "current_article (step t s b) = (if is_article_header b then b else current_article s)"
    by (auto simp: step_def split: option.splits)
  then show ?case using Cons.IH[of "step t s b"] by (simp add: label_after_def)
qed

lemma opened_ids_map_filter: "opened_ids bs = List.map_filter section_match bs"
  by (induction bs) (auto simp: List.map_filter_simps article_no_match split: option.splits)

lemma length_opened_ids: "length (opened_ids bs) = length (headers bs)"
  by (simp add: opened_ids_map_filter headers_def map_filter_def)

lemma opened_ids_append: "opened_ids (xs @ ys) = opened_ids xs @ opened_ids ys"
  by (simp add: opened_ids_map_filter map_filter_def)

lemma segment_ids: "map row_id (segment t bs) = opened_ids bs"
  using run_ids[OF ok_init, of t bs]
  by (simp add: segment_def init_state_def opened_ids_map_filter)

lemma segment_length: "length (segment t bs) = length (headers bs)"
  using arg_cong[OF segment_ids, of length t bs] by (simp add: length_opened_ids)

lemma label_after_append:
  "label_after a (xs @ ys) = label_after (label_after a xs) ys"
  by (simp add: label_after_def)

lemma close_row:
  assumes "ok s" "section_open s" "rest = [] \<or> section_match (hd rest) \<noteq> None"
  shows "\<exists>ys. finish t (foldl (step t) s rest) = sections_data s @ the_row t s # ys"
proof (cases rest)
  case Nil
  have "current_buffer s \<noteq> []"
    using assms(1,2) by (auto simp: ok_def section_open_def split: option.splits)
  then show ?thesis using assms(2) Nil by (simp add: finish_def)
next
  case (Cons h' r')
  with assms(3) obtain j where j: "section_match h' = Some j" by auto
  have "sections_data (step t s h') = sections_data s @ [the_row t s]"
    using assms(1,2) by (simp add: step_header[OF assms(1) j])
  moreover obtain ys where
    "finish t (foldl (step t) (step t s h') r') = sections_data (step t s h') @ ys"
    using run_extends by blast
  ultimately show ?thesis using Cons by simp
qed

lemma row_at:
  assumes h: "section_match h = Some i"
      and mid: "\<forall>b\<in>set mid. section_match b = None"
      and rest: "rest = [] \<or> section_match (hd rest) \<noteq> None"
  shows "length (headers pre) < length (segment t (pre @ h # mid @ rest))"
    and "segment t (pre @ h # mid @ rest) ! length (headers pre) =
           (t, label_after ''General Provisions'' (pre @ h # mid), i,
            strip (join_nl (h # body_of mid)))"
proof -
  define s1 where "s1 = foldl (step t) init_state pre"
  define s2 where "s2 = step t s1 h"
  define s3 where "s3 = foldl (step t) s2 mid"
  have ok1: "ok s1" unfolding s1_def by (rule ok_foldl[OF ok_init])
  have ok2: "ok s2" unfolding s2_def by (rule ok_step[OF ok1])
  have ok3: "ok s3" unfolding s3_def by (rule ok_foldl[OF ok2])
  have nh: "\<not> is_article_header h" using article_no_match[of h] h by auto
  have len1: "length (finish t s1) = length (headers pre)"
    using segment_length[of t pre] by (simp add: segment_def s1_def)
  have s2: "s2 = (if section_open s1 then s1\<lparr>sections_data := sections_data s1 @ [the_row t s1]\<rparr>
                  else s1)\<lparr>current_section_id := Some i, current_buffer := [h]\<rparr>"
    unfolding s2_def by (rule step_header[OF ok1 h])
  have buf1: "section_open s1 \<Longrightarrow> current_buffer s1 \<noteq> []"
    using ok1 by (auto simp: ok_def section_open_def split: option.splits)
  have len2: "length (sections_data s2) = length (headers pre)"
    using len1 buf1 by (auto simp: s2 finish_def)
  have open2: "section_open s2"
    using section_match_hd[OF h] by (simp add: s2 section_open_def)
  have art2: "current_article s2 = label_after ''General Provisions'' pre"
    using run_label[of t init_state pre] by (simp add: s2 s1_def init_state_def)
  have s3: "s3 = s2\<lparr>current_article := label_after (current_article s2) mid,
                    current_buffer := current_buffer s2 @ body_of mid\<rparr>"
    unfolding s3_def by (rule run_nomatch_open[OF open2 mid])
  have open3: "section_open s3" using open2 by (simp add: s3 section_open_def)
  have lab: "label_after (label_after ''General Provisions'' pre) mid
             = label_after ''General Provisions'' (pre @ h # mid)"
    using nh by (simp add: label_after_def)
  have row3: "the_row t s3 =
      (t, label_after ''General Provisions'' (pre @ h # mid), i, strip (join_nl (h # body_of mid)))"
    by (simp add: s3 the_row_def full_content_def art2 lab) (simp add: s2)
  have len3: "length (sections_data s3) = length (headers pre)"
    using len2 by (simp add: s3)
  obtain ys where "finish t (foldl (step t) s3 rest) = sections_data s3 @ the_row t s3 # ys"
    using close_row[OF ok3 open3 rest] by blast
  moreover have "segment t (pre @ h # mid @ rest) = finish t (foldl (step t) s3 rest)"
    by (simp add: segment_def s1_def s2_def s3_def)
  ultimately have seg: "segment t (pre @ h # mid @ rest) = sections_data s3 @ the_row t s3 # ys"
    by simp
  show "length (headers pre) < length (segment t (pre @ h # mid @ rest))"
    using len3 by (simp add: seg)
  show "segment t (pre @ h # mid @ rest) ! length (headers pre) =
           (t, label_after ''General Provisions'' (pre @ h # mid), i,
            strip (join_nl (h # body_of mid)))"
    using len3 row3 by (simp add: seg nth_append)
qed

section \<open>Facts about the content of a row\<close>

lemma startswith_append: "startswith (p @ r) p"
  by (simp add: startswith_def)

lemma rstrip_split:
  "\<exists>w. xs = rev (dropWhile P (rev xs)) @ w"
proof -
  have "rev (takeWhile P (rev xs) @ dropWhile P (rev xs)) = xs"
    by (simp only: takeWhile_dropWhile_id rev_rev_ident)
  then have "xs = rev (dropWhile P (rev xs)) @ rev (takeWhile P (rev xs))"
    by (simp only: rev_append)
  then show ?thesis by blast
qed

lemma strip_append_prefix:
  assumes "\<not> list_all isspace h"
  shows "\<exists>r'. strip (h @ r) = strip h @ r'"
proof -
  from assms obtain x where x: "x \<in> set h" "\<not> isspace x" by (auto simp: list_all_iff)
  define h' where "h' = dropWhile isspace h"
  have l: "dropWhile isspace (h @ r) = h' @ r"
    unfolding h'_def using x by (rule dropWhile_append1)
  have sh: "strip h = rev (dropWhile isspace (rev h'))" by (simp add: strip_def h'_def)
  have s: "strip (h @ r) = rev (dropWhile isspace (rev r @ rev h'))"
    by (simp add: strip_def l)
  show ?thesis
  proof (cases "\<forall>c\<in>set (rev r). isspace c")
    case True
    then have "dropWhile isspace (rev r @ rev h') = dropWhile isspace (rev h')"
      by (intro dropWhile_append2) auto
    then show ?thesis by (simp add: s sh)
  next
    case False
    then obtain y where "y \<in> set (rev r)" "\<not> isspace y" by blast
    then have "dropWhile isspace (rev r @ rev h') = dropWhile isspace (rev r) @ rev h'"
      by (rule dropWhile_append1)
    then have e: "strip (h @ r) = h' @ rev (dropWhile isspace (rev r))" by (simp add: s)
    obtain w where "h' = strip h @ w" using rstrip_split[of h' isspace] sh by auto
    then show ?thesis using e by simp
  qed
qed

lemma content_starts:
  assumes "\<not> list_all isspace h"
  shows "startswith (strip (join_nl (h # xs))) (strip h)"
proof -
  obtain r where "join_nl (h # xs) = h @ r" using join_nl_Cons by blast
  moreover obtain r' where "strip (h @ r) = strip h @ r'"
    using strip_append_prefix[OF assms] by blast
  ultimately show ?thesis by (simp add: startswith_append)
qed

lemma ok_row:
  assumes "ok s" "section_open s"
  shows "good_row (the_row t s) (hd (current_buffer s))"
proof -
  from assms obtain h xs where b: "current_buffer s = h # xs" and h: "\<not> list_all isspace h"
    by (cases "current_buffer s") (auto simp: ok_def section_open_def split: option.splits)
  show ?thesis
    using ok_content[OF assms] content_starts[OF h, of xs]
    by (simp add: good_row_def the_row_def row_simps full_content_def b)
qed

lemma run_rows:
  "ok s \<Longrightarrow>
   \<exists>ys. finish t (foldl (step t) s bs) = sections_data s @ ys \<and>
        list_all2 good_row ys
          ((if section_open s then [hd (current_buffer s)] else []) @ headers bs)"
proof (induction bs arbitrary: s)
  case Nil
  have "current_buffer s \<noteq> []" if "section_open s"
    using that Nil by (auto simp: ok_def section_open_def split: option.splits)
  then show ?case using ok_row[OF Nil]
    by (auto simp: finish_def headers_def)
next
  case (Cons b bs)
  note s = \<open>ok s\<close>
  define s' where "s' = step t s b"
  have ok': "ok s'" unfolding s'_def by (rule ok_step[OF s])
  from Cons.IH[OF ok'] obtain ys where
    fin: "finish t (foldl (step t) s' bs) = sections_data s' @ ys" and
    rows: "list_all2 good_row ys
             ((if section_open s' then [hd (current_buffer s')] else []) @ headers bs)"
    by blast
  have run: "finish t (foldl (step t) s (b # bs)) = sections_data s' @ ys"
    using fin by (simp add: s'_def)
  have buf: "current_buffer s \<noteq> []" if "section_open s"
    using that s by (auto simp: ok_def section_open_def split: option.splits)
  show ?case
  proof (cases "section_match b")
    case None
    then have hb: "headers (b # bs) = headers bs" by (simp add: headers_def)
    have same: "sections_data s' = sections_data s" "section_open s' = section_open s"
      "section_open s \<Longrightarrow> hd (current_buffer s') = hd (current_buffer s)"
      using None buf by (auto simp: s'_def step_def section_open_def)
    show ?thesis unfolding run hb using rows same by auto
  next
    case (Some i)
    then have hb: "headers (b # bs) = b # headers bs" by (simp add: headers_def)
    have st: "s' = (if section_open s then s\<lparr>sections_data := sections_data s @ [the_row t s]\<rparr>
                    else s)\<lparr>current_section_id := Some i, current_buffer := [b]\<rparr>"
      unfolding s'_def by (rule step_header[OF s Some])
    have open': "section_open s'" using section_match_hd[OF Some] by (simp add: st section_open_def)
    have rows': "list_all2 good_row ys (b # headers bs)"
      using rows open' by (simp add: st)
    show ?thesis
    proof (cases "section_open s")
      case True
      have "finish t (foldl (step t) s (b # bs)) = sections_data s @ the_row t s # ys"
        unfolding run using True by (simp add: st)
      moreover have "list_all2 good_row (the_row t s # ys) (hd (current_buffer s) # b # headers bs)"
        using rows' ok_row[OF s True] by simp
      ultimately show ?thesis unfolding hb using True by auto
    next
      case False
      have "finish t (foldl (step t) s (b # bs)) = sections_data s @ ys"
        unfolding run using False by (simp add: st)
      then show ?thesis unfolding hb using False rows' by auto
    qed
  qed
qed

lemma segment_rows: "list_all2 good_row (segment t bs) (headers bs)"
  using run_rows[OF ok_init, of t bs]
  by (simp add: segment_def init_state_def section_open_def)

lemma last_dropWhile: "dropWhile P xs \<noteq> [] \<Longrightarrow> last (dropWhile P xs) = last xs"
proof -
  assume a: "dropWhile P xs \<noteq> []"
  have "last (takeWhile P xs @ dropWhile P xs) = last (dropWhile P xs)"
    using a by (rule last_appendR)
  then show ?thesis by (simp only: takeWhile_dropWhile_id)
qed

lemma strip_edges:
  assumes "strip s \<noteq> []"
  shows "\<not> isspace (hd (strip s)) \<and> \<not> isspace (last (strip s))"
proof -
  define a where "a = dropWhile isspace s"
  define b where "b = dropWhile isspace (rev a)"
  have s: "strip s = rev b" by (simp add: strip_def a_def b_def)
  from assms have b: "b \<noteq> []" by (simp add: s)
  then have a: "a \<noteq> []" by (auto simp: b_def)
  have "\<not> isspace (hd b)" using b unfolding b_def by (rule hd_dropWhile)
  then have l: "\<not> isspace (last (strip s))" using b by (simp add: s last_rev)
  have "last b = last (rev a)" using b unfolding b_def by (rule last_dropWhile)
  then have "hd (strip s) = hd a" using a b by (simp add: s hd_rev last_rev)
  moreover have "\<not> isspace (hd a)" using a unfolding a_def by (rule hd_dropWhile)
  ultimately show ?thesis using l by simp
qed

lemma strip_id:
  assumes "s \<noteq> []" "\<not> isspace (hd s)" "\<not> isspace (last s)"
  shows "strip s = s"
proof -
  have a: "dropWhile isspace s = s" using assms(1,2) by (cases s) auto
  have "rev s \<noteq> []" "\<not> isspace (hd (rev s))" using assms(1,3) by (simp_all add: hd_rev)
  then have "dropWhile isspace (rev s) = rev s" by (cases "rev s") auto
  then show ?thesis by (simp add: strip_def a)
qed

lemma join_sp_edges:
  "xs \<noteq> [] \<Longrightarrow> \<forall>x\<in>set xs. x \<noteq> [] \<Longrightarrow>
   join_sp xs \<noteq> [] \<and> hd (join_sp xs) = hd (hd xs) \<and> last (join_sp xs) = last (last xs)"
  by (induction xs rule: join_sp.induct) auto

lemma get_text_strip: "strip (get_text nodes) = get_text nodes"
proof -
  define xs where "xs = filter (\<lambda>x. x \<noteq> []) (map strip nodes)"
  have g: "get_text nodes = join_sp xs" by (simp add: get_text_def xs_def)
  show ?thesis
  proof (cases xs)
    case Nil
    then show ?thesis by (simp add: g strip_def)
  next
    case (Cons y ys)
    have ne: "\<forall>x\<in>set xs. x \<noteq> []" by (simp add: xs_def)
    have ed: "\<not> isspace (hd x) \<and> \<not> isspace (last x)" if "x \<in> set xs" for x
    proof -
      from that obtain n where "x = strip n" "strip n \<noteq> []" by (auto simp: xs_def)
      then show ?thesis using strip_edges by simp
    qed
    have xs: "xs \<noteq> []" using Cons by simp
    note j = join_sp_edges[OF xs ne]
    have "hd xs \<in> set xs" "last xs \<in> set xs" using xs by simp_all
    then have "\<not> isspace (hd (join_sp xs))" "\<not> isspace (last (join_sp xs))"
      using j ed by simp_all
    then show ?thesis using j by (simp add: g strip_id)
  qed
qed


section \<open>Properties of the segmenter\<close>

text \<open>
  Claim C2. With title \<^verbatim>\<open>T\<close> and the blocks \<^verbatim>\<open>ARTICLE 1\<close>, \<^verbatim>\<open>18-1-101. Foo.\<close>,
  \<^verbatim>\<open>More body.\<close>, \<^verbatim>\<open>18-1-102. Bar.\<close> the segmenter returns exactly two rows, in this
  order: the first for 18-1-101 with the two body lines joined by a newline, the second
  for 18-1-102, both under \<^verbatim>\<open>ARTICLE 1\<close>.
\<close>

theorem segment_example:
  "segment ''T'' [''ARTICLE 1'', ''18-1-101. Foo.'', ''More body.'', ''18-1-102. Bar.'']
   = [(''T'', ''ARTICLE 1'', ''18-1-101'', ''18-1-101. Foo.'' @ [CHR 0x0A] @ ''More body.''),
      (''T'', ''ARTICLE 1'', ''18-1-102'', ''18-1-102. Bar.'')]"
  by code_simp

lemma metadata_first:
  assumes "is_metadata b"
  obtains c cs where "b = c # cs" "c = CHR ''S'' \<or> c = CHR ''C'' \<or> c = CHR ''L''"
  using assms by (cases b) (auto simp: is_metadata_def startswith_def)

lemma metadata_no_match: "is_metadata b \<Longrightarrow> section_match b = None"
proof -
  assume "is_metadata b"
  then obtain c cs where b: "b = c # cs" and c: "c = CHR ''S'' \<or> c = CHR ''C'' \<or> c = CHR ''L''"
    by (rule metadata_first)
  from c have "\<not> isspace c" "\<not> isdigit c" by (auto simp: isspace_def isdigit_def)
  then show ?thesis by (simp add: section_match_def b digits1_def)
qed

lemma metadata_not_article: "is_metadata b \<Longrightarrow> \<not> is_article_header b"
proof
  assume m: "is_metadata b" and a: "is_article_header b"
  from m obtain c cs where b: "b = c # cs" and c: "c = CHR ''S'' \<or> c = CHR ''C'' \<or> c = CHR ''L''"
    by (rule metadata_first)
  from a obtain c' cs' where "b = c' # cs'" "of_char c' = (65::nat) \<or> of_char c' = (97::nat)"
    by (rule article_first)
  with b c show False by auto
qed

lemma body_of_metadata: "\<forall>b\<in>set metas. is_metadata b \<Longrightarrow> body_of metas = []"
  by (simp add: body_of_def)

lemma metadata_no_articles:
  "\<forall>b\<in>set metas. is_metadata b \<Longrightarrow> filter is_article_header metas = []"
  by (auto simp: filter_empty_conv dest: metadata_not_article)

text \<open>
  Claim C1, as amended. Take a section opened by the header block \<open>h\<close> whose only
  continuation blocks \<open>metas\<close> all begin with \<^verbatim>\<open>Source:\<close>, \<^verbatim>\<open>Cross references:\<close> or
  \<^verbatim>\<open>Law reviews:\<close>, and that is closed by the next header block or by the end of the
  input. In both cases a row is emitted for it, at the position of its header among the
  header blocks; its content is the header text with the surrounding whitespace removed,
  which is not empty.
\<close>

theorem metadata_only_section:
  assumes "section_match h = Some i"
      and "\<forall>b\<in>set metas. is_metadata b"
      and "rest = [] \<or> section_match (hd rest) \<noteq> None"
  shows "length (headers pre) < length (segment t (pre @ h # metas @ rest)) \<and>
         segment t (pre @ h # metas @ rest) ! length (headers pre)
           = (t, label_after ''General Provisions'' pre, i, strip h) \<and>
         strip h \<noteq> []"
proof -
  have mid: "\<forall>b\<in>set metas. section_match b = None"
    using assms(2) by (simp add: metadata_no_match)
  have nh: "\<not> is_article_header h" using article_no_match[of h] assms(1) by auto
  have lab: "label_after ''General Provisions'' (pre @ h # metas)
             = label_after ''General Provisions'' pre"
    using nh by (simp add: metadata_no_articles[OF assms(2)] label_after_def)
  have "strip h \<noteq> []"
    by (rule strip_nonempty[OF section_match_block_nonspace[OF assms(1)]])
  then show ?thesis
    using row_at[OF assms(1) mid assms(3), where pre = pre and t = t]
    by (simp add: body_of_metadata[OF assms(2)] lab)
qed

theorem metadata_only_section_witness:
  "section_match ''1-2-3. Foo.'' = Some ''1-2-3'' \<and>
   list_all is_metadata [''Source: L. 2020'', ''Law reviews: x''] \<and>
   segment ''T'' ([''ARTICLE 1''] @ ''1-2-3. Foo.'' # [''Source: L. 2020'', ''Law reviews: x''] @ [])
      ! length (headers [''ARTICLE 1''])
     = (''T'', ''ARTICLE 1'', ''1-2-3'', ''1-2-3. Foo.'')"
proof -
  have h: "section_match ''1-2-3. Foo.'' = Some ''1-2-3''" by code_simp
  have m: "\<forall>b\<in>set [''Source: L. 2020'', ''Law reviews: x'']. is_metadata b" by code_simp
  have r: "([]::string list) = [] \<or> section_match (hd []) \<noteq> None" by simp
  have l: "label_after ''General Provisions'' [''ARTICLE 1''] = ''ARTICLE 1''" by code_simp
  have s: "strip ''1-2-3. Foo.'' = ''1-2-3. Foo.''" by code_simp
  show ?thesis
    using h m metadata_only_section[OF h m r, where pre = "[''ARTICLE 1'']" and t = "''T''"]
    unfolding l s by (simp add: list_all_iff)
qed

text \<open>
  The claim as worded says that such a section has empty content and that no row is
  emitted for it when a later header closes it. On the blocks below the section 1-2-3 has
  one continuation block, a \<^verbatim>\<open>Source:\<close> line, and is closed by the header of 1-2-4: its
  row is emitted, with the header text as content.
\<close>

theorem metadata_only_section_counterexample:
  "is_metadata ''Source: L. 2020'' \<and>
   segment ''T'' [''1-2-3. Foo.'', ''Source: L. 2020'', ''1-2-4. Bar.'']
     = [(''T'', ''General Provisions'', ''1-2-3'', ''1-2-3. Foo.''),
        (''T'', ''General Provisions'', ''1-2-4'', ''1-2-4. Bar.'')]"
  by code_simp

text \<open>
  Claim C3. The segmenter is a total function: no operation of the loop or of the flush
  can raise on strings. On the empty block sequence it returns no row, and so it does on
  every block sequence in which no block matches the section pattern.
\<close>

theorem segment_no_headers:
  "segment t [] = [] \<and>
   ((\<forall>b\<in>set blocks. section_match b = None) \<longrightarrow> segment t blocks = [])"
proof -
  have closed: "\<not> section_open init_state" by (simp add: section_open_def init_state_def)
  have "segment t blocks = []" if "\<forall>b\<in>set blocks. section_match b = None"
    using run_nomatch_closed[OF closed that, of t]
    by (simp add: segment_def finish_def section_open_def init_state_def)
  moreover have "segment t [] = []"
    by (simp add: segment_def finish_def section_open_def init_state_def)
  ultimately show ?thesis by blast
qed

theorem segment_no_headers_witness:
  "list_all (\<lambda>b. section_match b = None)
     [''ARTICLE 1'', ''Body text.'', ''18-1 is not a section''] \<and>
   segment ''T'' [''ARTICLE 1'', ''Body text.'', ''18-1 is not a section''] = []"
proof -
  have h: "\<forall>b\<in>set [''ARTICLE 1'', ''Body text.'', ''18-1 is not a section'']. section_match b = None"
    by code_simp
  show ?thesis
    using h segment_no_headers[of "''T''" "[''ARTICLE 1'', ''Body text.'', ''18-1 is not a section'']"]
    by (simp add: list_all_iff)
qed

text \<open>
  Claim C4. For every block sequence the number of emitted rows is at most the number of
  blocks that match the section pattern.
\<close>

theorem segment_count_le:
  "length (segment t blocks) \<le> length (filter (\<lambda>b. section_match b \<noteq> None) blocks)"
  using segment_length[of t blocks] by (simp add: headers_def)

lemma first_pos_Cons:
  "first_pos (b # bs) i = (if section_match b = Some i then 0 else Suc (first_pos bs i))"
  by (simp add: first_pos_def)

lemma sorted_first_pos:
  "distinct (opened_ids bs) \<Longrightarrow> sorted_wrt (<) (map (first_pos bs) (opened_ids bs))"
proof (induction bs)
  case Nil
  show ?case by simp
next
  case (Cons b bs)
  show ?case
  proof (cases "section_match b")
    case None
    then have o: "opened_ids (b # bs) = opened_ids bs" by simp
    have m: "map (first_pos (b # bs)) (opened_ids bs) = map (Suc \<circ> first_pos bs) (opened_ids bs)"
      by (simp add: first_pos_Cons None)
    have "sorted_wrt (<) (map (first_pos bs) (opened_ids bs))"
      using Cons o by simp
    then have "sorted_wrt (<) (map (Suc \<circ> first_pos bs) (opened_ids bs))"
      by (simp add: sorted_wrt_map)
    then show ?thesis unfolding o m .
  next
    case (Some j)
    then have o: "opened_ids (b # bs) = j # opened_ids bs"
      using article_no_match[of b] by auto
    from Cons.prems o have j: "j \<notin> set (opened_ids bs)" and d: "distinct (opened_ids bs)"
      by simp_all
    have m: "map (first_pos (b # bs)) (opened_ids bs) = map (Suc \<circ> first_pos bs) (opened_ids bs)"
      using j by (auto simp: first_pos_Cons Some)
    have z: "first_pos (b # bs) j = 0" by (simp add: first_pos_Cons Some)
    have "sorted_wrt (<) (map (first_pos bs) (opened_ids bs))"
      using Cons.IH d by simp
    then have "sorted_wrt (<) (map (Suc \<circ> first_pos bs) (opened_ids bs))"
      by (simp add: sorted_wrt_map)
    then show ?thesis unfolding o list.map m z by simp
  qed
qed

text \<open>
  Claim C5, as amended. For every block sequence the identifiers of the emitted rows, in
  output order, are the identifiers of the sections in the order they were opened. When no
  identifier is opened twice, the rows are also in the order of the first occurrence of
  their identifiers among the input blocks.
\<close>

theorem open_order:
  "map row_id (segment t blocks) = opened_ids blocks \<and>
   (distinct (opened_ids blocks) \<longrightarrow>
      sorted_wrt (<) (map (first_pos blocks) (map row_id (segment t blocks))))"
  using sorted_first_pos[of blocks] by (simp add: segment_ids)

theorem open_order_witness:
  "distinct (opened_ids [''ARTICLE 1'', ''1-1-2. B'', ''text'', ''1-1-1. A'']) \<and>
   map row_id (segment ''T'' [''ARTICLE 1'', ''1-1-2. B'', ''text'', ''1-1-1. A'']) = [''1-1-2'', ''1-1-1''] \<and>
   sorted_wrt (<) (map (first_pos [''ARTICLE 1'', ''1-1-2. B'', ''text'', ''1-1-1. A''])
      (map row_id (segment ''T'' [''ARTICLE 1'', ''1-1-2. B'', ''text'', ''1-1-1. A''])))"
proof -
  have o: "opened_ids [''ARTICLE 1'', ''1-1-2. B'', ''text'', ''1-1-1. A''] = [''1-1-2'', ''1-1-1'']"
    by code_simp
  have d: "distinct (opened_ids [''ARTICLE 1'', ''1-1-2. B'', ''text'', ''1-1-1. A''])"
    unfolding o by simp
  show ?thesis
    using d open_order[of "''T''" "[''ARTICLE 1'', ''1-1-2. B'', ''text'', ''1-1-1. A'']"]
    unfolding o by blast
qed

text \<open>
  With an identifier opened twice the order of first occurrence differs from the output
  order: the third row below carries the identifier that occurs first in the input.
\<close>

theorem first_occurrence_order_counterexample:
  "map row_id (segment ''T'' [''1-1-1. A'', ''1-1-2. B'', ''1-1-1. C''])
     = [''1-1-1'', ''1-1-2'', ''1-1-1''] \<and>
   \<not> sorted_wrt (<)
       (map (first_pos [''1-1-1. A'', ''1-1-2. B'', ''1-1-1. C''])
            (map row_id (segment ''T'' [''1-1-1. A'', ''1-1-2. B'', ''1-1-1. C''])))"
  by code_simp

text \<open>
  Claim C6. The section 1-1-1 below is opened before any article header, and the header
  \<^verbatim>\<open>ARTICLE 2\<close> comes while it is still open. Its row carries \<^verbatim>\<open>ARTICLE 2\<close>, not the
  sentinel \<^verbatim>\<open>General Provisions\<close>.
\<close>

theorem article_label_at_close:
  "segment ''T'' [''1-1-1. Foo'', ''ARTICLE 2'', ''1-1-2. Bar'']
     = [(''T'', ''ARTICLE 2'', ''1-1-1'', ''1-1-1. Foo''),
        (''T'', ''ARTICLE 2'', ''1-1-2'', ''1-1-2. Bar'')]"
  by code_simp

text \<open>
  Claim C7. When a block \<open>h\<close> matches the section pattern with first capture group
  \<open>i\<close>, the section the loop opens at \<open>h\<close> has the identifier \<open>i\<close>, and the row
  emitted for this section carries \<open>i\<close>. The identifier is what follows the leading
  whitespace of the block: three runs of digits separated by dashes, then possibly a dot
  and a run of digits, with no trailing period and no whitespace around it. The block
  \<^verbatim>\<open>18-1-102.5.\<close> yields the identifier \<^verbatim>\<open>18-1-102.5\<close>.
\<close>

theorem identifier_is_capture_group:
  assumes "section_match h = Some i"
  shows "current_section_id (foldl (step t) init_state (pre @ [h])) = Some i \<and>
         length (headers pre) < length (segment t (pre @ h # post)) \<and>
         row_id (segment t (pre @ h # post) ! length (headers pre)) = i \<and>
         (\<exists>d1 d2 d3 sfx rest.
            h = takeWhile isspace h @ i @ rest \<and>
            i = d1 @ ''-'' @ d2 @ ''-'' @ d3 @ sfx \<and>
            d1 \<noteq> [] \<and> list_all isdigit d1 \<and>
            d2 \<noteq> [] \<and> list_all isdigit d2 \<and>
            d3 \<noteq> [] \<and> list_all isdigit d3 \<and>
            (sfx = [] \<or> (\<exists>d4. sfx = ''.'' @ d4 \<and> d4 \<noteq> [] \<and> list_all isdigit d4)))"
proof -
  have ok1: "ok (foldl (step t) init_state pre)" by (rule ok_foldl[OF ok_init])
  have a: "current_section_id (foldl (step t) init_state (pre @ [h])) = Some i"
    by (simp add: step_header[OF ok1 assms])
  have nh: "\<not> is_article_header h" using article_no_match[of h] assms by auto
  have ids: "map row_id (segment t (pre @ h # post)) = opened_ids pre @ i # opened_ids post"
    using nh assms by (simp add: segment_ids opened_ids_append)
  have len: "length (opened_ids pre) = length (headers pre)" by (rule length_opened_ids)
  have b: "length (headers pre) < length (segment t (pre @ h # post))"
    using arg_cong[OF ids, of length] len by simp
  have "map row_id (segment t (pre @ h # post)) ! length (headers pre) = i"
    unfolding ids using len by (simp add: nth_append)
  then have c: "row_id (segment t (pre @ h # post) ! length (headers pre)) = i"
    using b by simp
  from section_match_shape[OF assms] obtain d1 d2 d3 sfx rest where
    sh: "dropWhile isspace h = i @ rest" "i = d1 @ ''-'' @ d2 @ ''-'' @ d3 @ sfx"
        "d1 \<noteq> []" "list_all isdigit d1" "d2 \<noteq> []" "list_all isdigit d2"
        "d3 \<noteq> []" "list_all isdigit d3"
        "sfx = [] \<or> (\<exists>d4. sfx = ''.'' @ d4 \<and> d4 \<noteq> [] \<and> list_all isdigit d4)"
    by blast
  have "h = takeWhile isspace h @ i @ rest"
    using sh(1) takeWhile_dropWhile_id[of isspace h] by simp
  with sh have d: "\<exists>d1 d2 d3 sfx rest.
            h = takeWhile isspace h @ i @ rest \<and>
            i = d1 @ ''-'' @ d2 @ ''-'' @ d3 @ sfx \<and>
            d1 \<noteq> [] \<and> list_all isdigit d1 \<and>
            d2 \<noteq> [] \<and> list_all isdigit d2 \<and>
            d3 \<noteq> [] \<and> list_all isdigit d3 \<and>
            (sfx = [] \<or> (\<exists>d4. sfx = ''.'' @ d4 \<and> d4 \<noteq> [] \<and> list_all isdigit d4))"
    by blast
  from a b c d show ?thesis by blast
qed

theorem identifier_is_capture_group_witness:
  "section_match ''18-1-102.5.'' = Some ''18-1-102.5'' \<and>
   row_id (segment ''T'' ([''18-1-101. Foo.''] @ ''18-1-102.5.'' # [''Body.''])
           ! length (headers [''18-1-101. Foo.''])) = ''18-1-102.5''"
proof -
  have h: "section_match ''18-1-102.5.'' = Some ''18-1-102.5''" by code_simp
  show ?thesis
    using h identifier_is_capture_group[OF h, where t = "''T''" and pre = "[''18-1-101. Foo.'']"
                and post = "[''Body.'']"]
    by blast
qed

text \<open>
  Claim C8. \<^verbatim>\<open>embed_text\<close> returns \<^verbatim>\<open>None\<close> for an absent and for an empty string,
  and for every other string the JSON array of the floats the embedding model returns
  for it.
\<close>

theorem embed_text_contract:
  "embed_text encode float_repr None = None \<and>
   embed_text encode float_repr (Some []) = None \<and>
   (s \<noteq> [] \<longrightarrow>
      embed_text encode float_repr (Some s)
        = Some (''['' @ join_comma (map float_repr (encode s)) @ '']''))"
  by (simp add: embed_text_def json_dumps_def)

theorem embed_text_contract_witness:
  "''statute'' \<noteq> [] \<and>
   embed_text (\<lambda>s. [1, 2 :: nat]) (\<lambda>n. if n = 1 then ''0.25'' else ''-1.5'') (Some ''statute'')
     = Some ''[0.25, -1.5]''"
proof -
  have h: "''statute'' \<noteq> []" by simp
  show ?thesis
    using h embed_text_contract[of "\<lambda>s. [1, 2 :: nat]" "\<lambda>n. if n = 1 then ''0.25'' else ''-1.5''"
                 "''statute''"]
    by simp
qed

text \<open>
  Claim C9. The rows and the header blocks correspond one to one, in order, so the filter
  on empty content never drops a section. The content of each row is not empty and begins
  with the text of the block that opened its section, whitespace at its ends removed.
  The texts that line 40 hands to the loop have no whitespace at their ends, so in
  \<^verbatim>\<open>parse_crs_html\<close> the content of each row begins with the full text of the header
  block.
\<close>

theorem content_begins_with_header:
  "list_all2 (\<lambda>r h. row_content r \<noteq> [] \<and> startswith (row_content r) (strip h))
      (segment t blocks) (headers blocks) \<and>
   list_all2 (\<lambda>r h. row_content r \<noteq> [] \<and> startswith (row_content r) h)
      (parse_crs_html t paragraphs) (headers (map get_text paragraphs))"
proof -
  have a: "list_all2 (\<lambda>r h. row_content r \<noteq> [] \<and> startswith (row_content r) (strip h))
      (segment t bs) (headers bs)" for bs
    using segment_rows[of t bs] by (simp add: good_row_def[abs_def])
  have "list_all2 (\<lambda>r h. row_content r \<noteq> [] \<and> startswith (row_content r) h)
      (segment t (map get_text paragraphs)) (headers (map get_text paragraphs))"
    using a[of "map get_text paragraphs"]
  proof (rule list.rel_mono_strong)
    fix r h
    assume "h \<in> set (headers (map get_text paragraphs))"
      and r: "row_content r \<noteq> [] \<and> startswith (row_content r) (strip h)"
    then obtain p where "h = get_text p" by (auto simp: headers_def)
    then have "strip h = h" by (simp add: get_text_strip)
    with r show "row_content r \<noteq> [] \<and> startswith (row_content r) h" by simp
  qed
  then show ?thesis using a[of blocks] by (simp add: parse_crs_html_def)
qed


text \<open>
  Claim C10. Take a section opened by the header block \<open>h\<close> and closed by the next header
  block or by the end of the input. When an article header appears among the blocks
  \<open>mid\<close> in between, the row emitted for the section carries the last such header, the
  label current when the section closes, whatever the label was when it opened.
\<close>

theorem article_at_close:
  assumes "section_match h = Some i"
      and "list_all (\<lambda>b. section_match b = None) mid"
      and "filter is_article_header mid \<noteq> []"
      and "rest = [] \<or> section_match (hd rest) \<noteq> None"
  shows "length (headers pre) < length (segment t (pre @ h # mid @ rest)) \<and>
         row_id (segment t (pre @ h # mid @ rest) ! length (headers pre)) = i \<and>
         row_article (segment t (pre @ h # mid @ rest) ! length (headers pre))
           = last (filter is_article_header mid)"
proof -
  have mid: "\<forall>b\<in>set mid. section_match b = None" using assms(2) by (simp add: list_all_iff)
  have "label_after ''General Provisions'' (pre @ h # mid) = last (filter is_article_header mid)"
    using assms(3) by (simp add: label_after_def)
  then show ?thesis
    using row_at[OF assms(1) mid assms(4), where pre = pre and t = t]
    by (simp add: row_simps)
qed

theorem article_at_close_witness:
  "section_match ''1-1-1. Foo'' = Some ''1-1-1'' \<and>
   list_all (\<lambda>b. section_match b = None) [''Body.'', ''ARTICLE 2''] \<and>
   filter is_article_header [''Body.'', ''ARTICLE 2''] = [''ARTICLE 2''] \<and>
   label_after ''General Provisions'' [''ARTICLE 1''] = ''ARTICLE 1'' \<and>
   row_article (segment ''T'' ([''ARTICLE 1''] @ ''1-1-1. Foo'' # [''Body.'', ''ARTICLE 2''] @ [''1-1-2. Bar''])
                ! length (headers [''ARTICLE 1''])) = ''ARTICLE 2''"
proof -
  have h: "section_match ''1-1-1. Foo'' = Some ''1-1-1''" by code_simp
  have m: "list_all (\<lambda>b. section_match b = None) [''Body.'', ''ARTICLE 2'']" by code_simp
  have f: "filter is_article_header [''Body.'', ''ARTICLE 2''] = [''ARTICLE 2'']" by code_simp
  have f': "filter is_article_header [''Body.'', ''ARTICLE 2''] \<noteq> []" unfolding f by simp
  have r: "[''1-1-2. Bar''] = [] \<or> section_match (hd [''1-1-2. Bar'']) \<noteq> None" by code_simp
  have l: "label_after ''General Provisions'' [''ARTICLE 1''] = ''ARTICLE 1''" by code_simp
  show ?thesis
    using h m f l article_at_close[OF h m f' r, where pre = "[''ARTICLE 1'']" and t = "''T''"]
    by simp
qed

end
